theory Spec2Isabelle
  imports Complex_Main "HOL-Library.Stream" "HOL-Library.Log_Nat"
begin

section \<open>The snake engine of \<^verbatim>\<open>snake_game.py\<close>\<close>

text \<open>
  The engine is the part of \<^verbatim>\<open>ProfessionalSnakeGame\<close> that owns the game state:
  \<^verbatim>\<open>reset_game\<close>, \<^verbatim>\<open>generate_food\<close>, \<^verbatim>\<open>move\<close> and the key handling of \<^verbatim>\<open>run\<close>.
  Drawing reads the state and never writes it, so it is not modelled.
  Positions are pixel coordinates (Python's unbounded integers, here \<^typ>\<open>int\<close>), a
  direction is the tuple the source stores.
\<close>

subsection \<open>Constants\<close>

definition WIDTH :: int where "WIDTH = 800"
definition HEIGHT :: int where "HEIGHT = 600"
definition CELL_SIZE :: int where "CELL_SIZE = 28"

type_synonym cell = "int \<times> int"
type_synonym vec = "int \<times> int"

definition UP :: vec where "UP = (0, -1)"
definition DOWN :: vec where "DOWN = (0, 1)"
definition LEFT :: vec where "LEFT = (-1, 0)"
definition RIGHT :: vec where "RIGHT = (1, 0)"

subsection \<open>Binary64 arithmetic of the speed\<close>

text \<open>
  \<^verbatim>\<open>SPEED_INCREMENT = 0.4\<close> is a Python float, so \<^verbatim>\<open>current_speed + SPEED_INCREMENT\<close>
  is an IEEE 754 binary64 addition: the exact sum, rounded to the nearest number with a
  53-bit significand, ties to the even significand. A float is modelled by the rational
  number it denotes; so is the integer \<^verbatim>\<open>10\<close> or \<^verbatim>\<open>24\<close> the speed holds before the
  first food and at saturation (Python compares and adds the two kinds by value).
  The rounding below is the one of the normal and subnormal range; overflow to infinity
  (sums of magnitude \<open>2 ^ 1024\<close> and more) is not modelled, the speed stays below 25.
\<close>

definition float_exponent :: "rat \<Rightarrow> int" where
  \<comment> \<open>the \<open>e\<close> with \<open>2 ^ e \<le> \<bar>q\<bar> < 2 ^ (e + 1)\<close>, for \<open>q \<noteq> 0\<close>\<close>
  "float_exponent q =
     (let (a, b) = quotient_of q;
          e = bitlen \<bar>a\<bar> - bitlen b
      in if 2 powi e \<le> \<bar>q\<bar> then e else e - 1)"

definition round_half_even :: "rat \<Rightarrow> int" where
  "round_half_even r =
     (let f = \<lfloor>r\<rfloor>; d = r - of_int f
      in if d < 1 / 2 then f else if 1 / 2 < d then f + 1
         else if even f then f else f + 1)"

definition binary64 :: "rat \<Rightarrow> rat" where
  "binary64 q =
     (if q = 0 then 0
      else let e = max (float_exponent q) (- 1022); u = 2 powi (e - 52)
           in u * of_int (round_half_even (q / u)))"

definition float_add :: "rat \<Rightarrow> rat \<Rightarrow> rat" where
  "float_add x y = binary64 (x + y)"

definition INITIAL_SPEED :: rat where "INITIAL_SPEED = 10"
definition SPEED_INCREMENT :: rat where "SPEED_INCREMENT = binary64 (4 / 10)"
definition MAX_SPEED :: rat where "MAX_SPEED = 24"

subsection \<open>The random module\<close>

text \<open>
  The state of Python's global generator is a stream of raw draws; \<^verbatim>\<open>random.randint(a, b)\<close>
  consumes one and returns an integer of \<open>[a, b]\<close>. Every sequence of results the real
  generator can give comes from some stream (lemma \<open>randint_any\<close> below).
\<close>

type_synonym rng = "nat stream"

definition randint :: "int \<Rightarrow> int \<Rightarrow> rng \<Rightarrow> int \<times> rng" where
  "randint a b r = (a + int (shd r mod nat (b - a + 1)), stl r)"

subsection \<open>pygame.Rect\<close>

text \<open>
  \<^verbatim>\<open>pygame.Rect(left, top, width, height)\<close> and its \<^verbatim>\<open>colliderect\<close>, as the library
  computes it: two rectangles collide when their interiors overlap; a rectangle of width
  or height zero collides with nothing.
\<close>

record rect =
  rx :: int
  ry :: int
  rw :: int
  rh :: int

definition Rect :: "int \<Rightarrow> int \<Rightarrow> int \<Rightarrow> int \<Rightarrow> rect" where
  "Rect l t w h = \<lparr>rx = l, ry = t, rw = w, rh = h\<rparr>"

definition colliderect :: "rect \<Rightarrow> rect \<Rightarrow> bool" where
  "colliderect A B =
     (if rw A = 0 \<or> rh A = 0 \<or> rw B = 0 \<or> rh B = 0 then False
      else min (rx A) (rx A + rw A) < max (rx B) (rx B + rw B)
         \<and> min (ry A) (ry A + rh A) < max (ry B) (ry B + rh B)
         \<and> max (rx A) (rx A + rw A) > min (rx B) (rx B + rw B)
         \<and> max (ry A) (ry A + rh A) > min (ry B) (ry B + rh B))"

subsection \<open>Game state\<close>

record game =
  snake :: "cell list"
  direction :: vec
  food :: cell
  score :: int
  game_over :: bool
  current_speed :: rat

datatype error = IndexError

subsection \<open>generate_food\<close>

text \<open>
  The \<^verbatim>\<open>while True\<close> loop has no bound: a call that never draws a free cell does not
  return, which is the value \<open>None\<close>.
\<close>

partial_function (option) generate_food :: "cell list \<Rightarrow> rng \<Rightarrow> (cell \<times> rng) option" where
  "generate_food snake_cells r =
     (let (x, r1) = randint 1 (WIDTH div CELL_SIZE - 2) r;
          (y, r2) = randint 1 (HEIGHT div CELL_SIZE - 2) r1;
          food_pos = (x * CELL_SIZE, y * CELL_SIZE)
      in if food_pos \<notin> set snake_cells then Some (food_pos, r2)
         else generate_food snake_cells r2)"

subsection \<open>reset_game\<close>

definition reset_game :: "rng \<Rightarrow> (game \<times> rng) option" where
  "reset_game r =
     (let start_x = (WIDTH div 2) div CELL_SIZE * CELL_SIZE;
          start_y = (HEIGHT div 2) div CELL_SIZE * CELL_SIZE;
          snake0 = [(start_x, start_y)]
      in case generate_food snake0 r of
           None \<Rightarrow> None
         | Some (f, r') \<Rightarrow>
             Some (\<lparr>snake = snake0, direction = RIGHT, food = f, score = 0,
                     game_over = False, current_speed = INITIAL_SPEED\<rparr>, r'))"

subsection \<open>move\<close>

definition new_head :: "cell \<Rightarrow> vec \<Rightarrow> cell" where
  "new_head head d = (fst head + fst d * CELL_SIZE, snd head + snd d * CELL_SIZE)"

definition boundary_hit :: "cell \<Rightarrow> bool" where
  "boundary_hit p \<longleftrightarrow> fst p < 0 \<or> fst p \<ge> WIDTH \<or> snd p < 0 \<or> snd p \<ge> HEIGHT"

definition eats :: "cell \<Rightarrow> cell \<Rightarrow> bool" where
  \<comment> \<open>\<^verbatim>\<open>head_rect.colliderect(food_rect)\<close>\<close>
  "eats p f =
     colliderect (Rect (fst p) (snd p) CELL_SIZE CELL_SIZE)
                 (Rect (fst f) (snd f) CELL_SIZE CELL_SIZE)"

text \<open>
  \<^verbatim>\<open>self.snake[0]\<close> raises \<^verbatim>\<open>IndexError\<close> on an empty list. \<^verbatim>\<open>self.snake.pop()\<close>
  runs right after the insertion, so its list is never empty and it removes the last cell.
\<close>

definition move :: "game \<Rightarrow> rng \<Rightarrow> (error + game \<times> rng) option" where
  "move g r =
     (if game_over g then Some (Inr (g, r))
      else case snake g of
        [] \<Rightarrow> Some (Inl IndexError)
      | head # _ \<Rightarrow>
          let p = new_head head (direction g)
          in if boundary_hit p then Some (Inr (g\<lparr>game_over := True\<rparr>, r))
             else if p \<in> set (snake g) then Some (Inr (g\<lparr>game_over := True\<rparr>, r))
             else
               let g1 = g\<lparr>snake := p # snake g\<rparr>
               in if eats p (food g) then
                    let g2 = g1\<lparr>score := score g1 + 1\<rparr>;
                        g3 = g2\<lparr>current_speed :=
                                  min (float_add (current_speed g2) SPEED_INCREMENT) MAX_SPEED\<rparr>
                    in case generate_food (snake g3) r of
                         None \<Rightarrow> None
                       | Some (f, r') \<Rightarrow> Some (Inr (g3\<lparr>food := f\<rparr>, r'))
                  else Some (Inr (g1\<lparr>snake := butlast (snake g1)\<rparr>, r)))"

subsection \<open>The event loop of run\<close>

datatype key = K_q | K_SPACE | K_UP | K_DOWN | K_LEFT | K_RIGHT | K_other

datatype event = QUIT | KEYDOWN key | OTHER

text \<open>
  What one \<^verbatim>\<open>KEYDOWN\<close> event other than \<^verbatim>\<open>K_q\<close> does to the state (lines 274 to 288):
  the restart on space, then the arrow keys, each checked against \<^verbatim>\<open>self.direction\<close>
  as it is at that moment.
\<close>

definition steer :: "game \<Rightarrow> key \<Rightarrow> game" where
  "steer g k =
     (if \<not> game_over g then
        if k = K_UP \<and> direction g \<noteq> DOWN then g\<lparr>direction := UP\<rparr>
        else if k = K_DOWN \<and> direction g \<noteq> UP then g\<lparr>direction := DOWN\<rparr>
        else if k = K_LEFT \<and> direction g \<noteq> RIGHT then g\<lparr>direction := LEFT\<rparr>
        else if k = K_RIGHT \<and> direction g \<noteq> LEFT then g\<lparr>direction := RIGHT\<rparr>
        else g
      else g)"

definition keydown :: "game \<Rightarrow> rng \<Rightarrow> key \<Rightarrow> (game \<times> rng) option" where
  "keydown g r k =
     (case (if k = K_SPACE then (if game_over g then reset_game r else Some (g, r))
            else Some (g, r)) of
        None \<Rightarrow> None
      | Some (g', r') \<Rightarrow> Some (steer g' k, r'))"

text \<open>
  One pass of the \<^verbatim>\<open>while True\<close> body of \<^verbatim>\<open>run\<close>: the events pygame has queued
  since the last pass, in order, then \<^verbatim>\<open>move\<close>. \<^verbatim>\<open>QUIT\<close> and \<^verbatim>\<open>K_q\<close> leave
  \<^verbatim>\<open>run\<close>; \<^verbatim>\<open>draw\<close> and \<^verbatim>\<open>clock.tick\<close> do not touch the state.
\<close>

datatype 'a loop = Quit | Next 'a

fun handle_events :: "game \<Rightarrow> rng \<Rightarrow> event list \<Rightarrow> (game \<times> rng) loop option" where
  "handle_events g r [] = Some (Next (g, r))"
| "handle_events g r (QUIT # es) = Some Quit"
| "handle_events g r (KEYDOWN k # es) =
     (if k = K_q then Some Quit
      else case keydown g r k of
             None \<Rightarrow> None
           | Some (g', r') \<Rightarrow> handle_events g' r' es)"
| "handle_events g r (OTHER # es) = handle_events g r es"

definition frame :: "game \<Rightarrow> rng \<Rightarrow> event list \<Rightarrow> (error + (game \<times> rng) loop) option" where
  "frame g r es =
     (case handle_events g r es of
        None \<Rightarrow> None
      | Some Quit \<Rightarrow> Some (Inr Quit)
      | Some (Next (g', r')) \<Rightarrow>
          (case move g' r' of
             None \<Rightarrow> None
           | Some (Inl e) \<Rightarrow> Some (Inl e)
           | Some (Inr s) \<Rightarrow> Some (Inr (Next s))))"

subsection \<open>Reachable states\<close>

text \<open>
  A state is a game together with the generator. The constructor runs \<^verbatim>\<open>reset_game\<close>;
  after that the state changes by key events and by \<^verbatim>\<open>move\<close>, in any order (the loop
  of \<^verbatim>\<open>run\<close> is one such order, lemma \<open>reachable_frame\<close>). The generator of
  rule \<open>init\<close> is any, so a call of \<^verbatim>\<open>reset_game\<close> at any later moment gives a reachable
  state as well.
\<close>

inductive reachable :: "game \<times> rng \<Rightarrow> bool" where
  init: "reset_game r = Some s \<Longrightarrow> reachable s"
| key: "reachable (g, r) \<Longrightarrow> keydown g r k = Some s \<Longrightarrow> reachable s"
| step: "reachable (g, r) \<Longrightarrow> move g r = Some (Inr s) \<Longrightarrow> reachable s"


subsection \<open>The grid\<close>

text \<open>
  The cell grid as the specification describes it: \<open>W \<times> H\<close> cells, the screen dimensions
  divided by the cell size, floored; the cell of a pixel position; a position on the grid
  has both coordinates non-negative multiples of \<^verbatim>\<open>CELL_SIZE\<close>.
\<close>

definition grid_W :: int where "grid_W = WIDTH div CELL_SIZE"
definition grid_H :: int where "grid_H = HEIGHT div CELL_SIZE"

definition cell_of :: "cell \<Rightarrow> int \<times> int" where
  "cell_of p = (fst p div CELL_SIZE, snd p div CELL_SIZE)"

definition inside_grid :: "int \<times> int \<Rightarrow> bool" where
  "inside_grid c \<longleftrightarrow> 0 \<le> fst c \<and> fst c < grid_W \<and> 0 \<le> snd c \<and> snd c < grid_H"

definition aligned :: "cell \<Rightarrow> bool" where
  "aligned p \<longleftrightarrow> 0 \<le> fst p \<and> 0 \<le> snd p \<and> CELL_SIZE dvd fst p \<and> CELL_SIZE dvd snd p"

definition grid_aligned :: "game \<Rightarrow> bool" where
  "grid_aligned g \<longleftrightarrow> list_all aligned (snake g) \<and> aligned (food g)"

text \<open>The state invariant: what holds of every reachable game.\<close>

definition wf_game :: "game \<Rightarrow> bool" where
  "wf_game g \<longleftrightarrow>
     snake g \<noteq> [] \<and> grid_aligned g \<and> food g \<notin> set (snake g)
   \<and> 0 \<le> score g
   \<and> INITIAL_SPEED \<le> current_speed g \<and> current_speed g \<le> MAX_SPEED"

subsection \<open>The candidates generate_food draws\<close>

text \<open>
  \<open>drawn_cell r\<close> is the candidate one pass of the loop of \<^verbatim>\<open>generate_food\<close> computes from
  the generator \<open>r\<close>; a pass consumes two draws, so \<open>draw r n\<close> is the candidate of pass
  \<open>n\<close> (counted from 0).
\<close>

definition drawn_cell :: "rng \<Rightarrow> cell" where
  "drawn_cell r =
     (let (x, r1) = randint 1 (WIDTH div CELL_SIZE - 2) r;
          (y, r2) = randint 1 (HEIGHT div CELL_SIZE - 2) r1
      in (x * CELL_SIZE, y * CELL_SIZE))"

definition draw :: "rng \<Rightarrow> nat \<Rightarrow> cell" where
  "draw r n = drawn_cell (sdrop (2 * n) r)"

text \<open>
  A snake that fills the whole region food is sampled from, column after column,
  alternating downwards and upwards.
\<close>

definition full_board :: "cell list" where
  "full_board =
     concat (map (\<lambda>x. map (\<lambda>y. (x * CELL_SIZE, y * CELL_SIZE))
                          (if even x then rev [1..HEIGHT div CELL_SIZE - 2]
                           else [1..HEIGHT div CELL_SIZE - 2]))
                 [1..WIDTH div CELL_SIZE - 2])"

text \<open>
  \<open>snake_path\<close>: each cell of the list is next to its successor, one cell to the side or
  up or down, as the cells of a snake are.
\<close>

definition adjacent :: "cell \<Rightarrow> cell \<Rightarrow> bool" where
  "adjacent p q \<longleftrightarrow> \<bar>fst p - fst q\<bar> + \<bar>snd p - snd q\<bar> = CELL_SIZE"

fun snake_path :: "cell list \<Rightarrow> bool" where
  "snake_path (p # q # ps) \<longleftrightarrow> adjacent p q \<and> snake_path (q # ps)"
| "snake_path _ \<longleftrightarrow> True"

subsection \<open>Outcome of a step, example states\<close>

text \<open>\<open>ends_game res\<close>: the call returned, and with \<^verbatim>\<open>game_over\<close> set.\<close>

definition ends_game :: "(error + game \<times> rng) option \<Rightarrow> bool" where
  "ends_game res = (case res of Some (Inr (g', r')) \<Rightarrow> game_over g' | _ \<Rightarrow> False)"

text \<open>
  States used as concrete inputs: the game after \<^verbatim>\<open>reset_game\<close> when the first candidate
  drawn is the cell \<open>(1, 1)\<close>; the same with the food right ahead of the head; the game
  after that food is eaten; a head in the last column but one that is wholly on the screen;
  a head about to step on its own tail; a finished game.
\<close>

primrec speed_after :: "nat \<Rightarrow> rat" where
  \<comment> \<open>the speed after \<open>n\<close> foods\<close>
  "speed_after 0 = INITIAL_SPEED"
| "speed_after (Suc n) = min (float_add (speed_after n) SPEED_INCREMENT) MAX_SPEED"

definition start_game :: game where
  "start_game = \<lparr>snake = [(392, 280)], direction = RIGHT, food = (28, 28), score = 0,
                  game_over = False, current_speed = INITIAL_SPEED\<rparr>"

definition food_ahead :: game where
  "food_ahead = \<lparr>snake = [(392, 280)], direction = RIGHT, food = (420, 280), score = 0,
                  game_over = False, current_speed = INITIAL_SPEED\<rparr>"

definition fed_game :: game where
  "fed_game = \<lparr>snake = [(420, 280), (392, 280)], direction = RIGHT, food = (28, 28), score = 1,
                game_over = False,
                current_speed = speed_after 1\<rparr>"

definition edge_game :: game where
  "edge_game = \<lparr>snake = [(756, 280)], direction = RIGHT, food = (28, 28), score = 0,
                 game_over = False, current_speed = INITIAL_SPEED\<rparr>"

definition ring_game :: game where
  "ring_game = \<lparr>snake = [(56, 84), (84, 84), (84, 56), (56, 56)], direction = UP,
                 food = (28, 28), score = 3, game_over = False, current_speed = speed_after 3\<rparr>"

definition dead_game :: game where
  "dead_game = \<lparr>snake = [(0, 280)], direction = LEFT, food = (28, 28), score = 0,
                 game_over = True, current_speed = INITIAL_SPEED\<rparr>"

section \<open>Properties\<close>

subsection \<open>Rounding to binary64\<close>

lemma float_exponent_bounds:
  assumes "q \<noteq> 0"
  shows "2 powi (float_exponent q) \<le> \<bar>q\<bar>" and "\<bar>q\<bar> < 2 powi (float_exponent q + 1)"
proof -
  obtain a b where ab: "quotient_of q = (a, b)" by (cases "quotient_of q")
  have bpos: "0 < b" using ab by (rule quotient_of_denom_pos)
  have q: "q = of_int a / of_int b" using ab by (rule quotient_of_div)
  have apos: "0 < \<bar>a\<bar>" using assms q by auto
  define la where "la = bitlen \<bar>a\<bar>"
  define lb where "lb = bitlen b"
  have la: "2 ^ nat (la - 1) \<le> \<bar>a\<bar>" "\<bar>a\<bar> < 2 ^ nat la"
    using bitlen_bounds [OF apos] by (simp_all add: la_def)
  have lb: "2 ^ nat (lb - 1) \<le> b" "b < 2 ^ nat lb"
    using bitlen_bounds [OF bpos] by (simp_all add: lb_def)
  have la1: "1 \<le> la" using la(2) apos by (cases "la \<le> 0") auto
  have lb1: "1 \<le> lb" using lb(2) bpos by (cases "lb \<le> 0") auto
  have absq: "\<bar>q\<bar> = of_int \<bar>a\<bar> / of_int b" using q bpos by simp
  have A1: "(2::rat) powi (la - 1) \<le> of_int \<bar>a\<bar>"
  proof -
    have "(2::rat) powi (la - 1) = of_int (2 ^ nat (la - 1))"
      using la1 by (simp add: power_int_def)
    also have "\<dots> \<le> of_int \<bar>a\<bar>" using la(1) by (simp only: of_int_le_iff)
    finally show ?thesis .
  qed
  have A2: "of_int \<bar>a\<bar> < (2::rat) powi la"
  proof -
    have "(of_int \<bar>a\<bar> :: rat) < of_int (2 ^ nat la)" using la(2) by (simp only: of_int_less_iff)
    also have "\<dots> = 2 powi la" using la1 by (simp add: power_int_def)
    finally show ?thesis .
  qed
  have B1: "(2::rat) powi (lb - 1) \<le> of_int b"
  proof -
    have "(2::rat) powi (lb - 1) = of_int (2 ^ nat (lb - 1))"
      using lb1 by (simp add: power_int_def)
    also have "\<dots> \<le> of_int b" using lb(1) by (simp only: of_int_le_iff)
    finally show ?thesis .
  qed
  have B2: "of_int b < (2::rat) powi lb"
  proof -
    have "(of_int b :: rat) < of_int (2 ^ nat lb)" using lb(2) by (simp only: of_int_less_iff)
    also have "\<dots> = 2 powi lb" using lb1 by (simp add: power_int_def)
    finally show ?thesis .
  qed
  have low: "(2::rat) powi (la - lb - 1) \<le> \<bar>q\<bar>"
  proof -
    have "(2::rat) powi (la - lb - 1) = 2 powi (la - 1) / 2 powi lb"
      by (simp add: power_int_diff [symmetric] algebra_simps)
    also have "\<dots> \<le> of_int \<bar>a\<bar> / of_int b"
      using A1 B2 bpos by (intro frac_le) (auto intro: less_imp_le)
    finally show ?thesis by (simp add: absq)
  qed
  have high: "\<bar>q\<bar> < (2::rat) powi (la - lb + 1)"
  proof -
    have "of_int \<bar>a\<bar> / of_int b < (2::rat) powi la / 2 powi (lb - 1)"
      using A2 B1 bpos by (intro frac_less) auto
    also have "\<dots> = 2 powi (la - lb + 1)"
      by (simp add: power_int_diff [symmetric] algebra_simps)
    finally show ?thesis by (simp add: absq)
  qed
  have fe: "float_exponent q = (if 2 powi (la - lb) \<le> \<bar>q\<bar> then la - lb else la - lb - 1)"
    by (simp add: float_exponent_def ab la_def lb_def Let_def)
  show "2 powi (float_exponent q) \<le> \<bar>q\<bar>" using low by (simp add: fe)
  show "\<bar>q\<bar> < 2 powi (float_exponent q + 1)" using high by (auto simp add: fe not_le)
qed

lemma round_half_even_cases:
  "round_half_even r = \<lfloor>r\<rfloor> \<and> r - of_int \<lfloor>r\<rfloor> \<le> 1 / 2
   \<or> round_half_even r = \<lfloor>r\<rfloor> + 1 \<and> 1 / 2 \<le> r - of_int \<lfloor>r\<rfloor>"
  unfolding round_half_even_def Let_def
  by (cases "r - of_int \<lfloor>r\<rfloor> < 1 / 2"; cases "1 / 2 < r - of_int \<lfloor>r\<rfloor>") simp_all

lemma round_half_even_near:
  "r - 1 / 2 \<le> of_int (round_half_even r)" "of_int (round_half_even r) \<le> r + 1 / 2"
proof -
  have *: "of_int \<lfloor>r\<rfloor> \<le> r" "r < of_int \<lfloor>r\<rfloor> + 1" by linarith+
  from round_half_even_cases [of r] * show "r - 1 / 2 \<le> of_int (round_half_even r)"
    by (elim disjE conjE) (simp only: of_int_add of_int_1, linarith)+
  from round_half_even_cases [of r] * show "of_int (round_half_even r) \<le> r + 1 / 2"
    by (elim disjE conjE) (simp only: of_int_add of_int_1, linarith)+
qed

lemma binary64_near:
  assumes "q \<noteq> 0"
  shows "q - 2 powi (max (float_exponent q) (- 1022) - 53) \<le> binary64 q"
    and "binary64 q \<le> q + 2 powi (max (float_exponent q) (- 1022) - 53)"
proof -
  define u :: rat where "u = 2 powi (max (float_exponent q) (- 1022) - 52)"
  have upos: "0 < u" by (simp add: u_def)
  have half: "2 powi (max (float_exponent q) (- 1022) - 53) = u / 2"
    unfolding u_def by (simp add: power_int_diff)
  have b: "binary64 q = u * of_int (round_half_even (q / u))"
    using assms by (simp add: binary64_def u_def Let_def)
  have "u * (q / u - 1 / 2) \<le> u * of_int (round_half_even (q / u))"
    using upos round_half_even_near(1) [of "q / u"] by (simp only: mult_le_cancel_left_pos)
  then show "q - 2 powi (max (float_exponent q) (- 1022) - 53) \<le> binary64 q"
    using upos by (simp add: b half algebra_simps)
  have "u * of_int (round_half_even (q / u)) \<le> u * (q / u + 1 / 2)"
    using upos round_half_even_near(2) [of "q / u"] by (simp only: mult_le_cancel_left_pos)
  then show "binary64 q \<le> q + 2 powi (max (float_exponent q) (- 1022) - 53)"
    using upos by (simp add: b half algebra_simps)
qed

lemma SPEED_INCREMENT_value: "SPEED_INCREMENT = 3602879701896397 / 9007199254740992"
  by code_simp

lemma float_add_increment_ge:
  assumes "INITIAL_SPEED \<le> x" "x \<le> MAX_SPEED"
  shows "x \<le> float_add x SPEED_INCREMENT"
proof -
  define q where "q = x + SPEED_INCREMENT"
  have q: "10 < q" "q < 32"
    using assms by (simp_all add: q_def SPEED_INCREMENT_value INITIAL_SPEED_def MAX_SPEED_def)
  then have q0: "q \<noteq> 0" by auto
  have "2 powi (float_exponent q) \<le> \<bar>q\<bar>" using q0 by (rule float_exponent_bounds)
  also have "\<bar>q\<bar> < 2 powi 5" using q by simp
  finally have "float_exponent q < 5"
    by (rule power_int_le_imp_less_exp [rotated]) simp_all
  then have "max (float_exponent q) (- 1022) - 53 \<le> - 49" by simp
  then have "(2::rat) powi (max (float_exponent q) (- 1022) - 53) \<le> 2 powi (- 49)"
    by (intro power_int_increasing) simp_all
  also have "\<dots> \<le> SPEED_INCREMENT"
    by (simp add: SPEED_INCREMENT_value power_int_minus)
  finally have "x \<le> q - 2 powi (max (float_exponent q) (- 1022) - 53)"
    by (simp add: q_def)
  also have "\<dots> \<le> binary64 q" using q0 by (rule binary64_near)
  finally show ?thesis by (simp add: float_add_def q_def)
qed

subsection \<open>Termination and result of generate_food\<close>

lemma randint_any:
  assumes "a \<le> v" "v \<le> b"
  shows "randint a b (nat (v - a) ## r) = (v, r)"
  using assms by (simp add: randint_def)

lemma randint_range:
  assumes "a \<le> b"
  shows "a \<le> fst (randint a b r)" "fst (randint a b r) \<le> b"
proof -
  have "int (shd r mod nat (b - a + 1)) < int (nat (b - a + 1))"
    using assms by (simp only: of_nat_less_iff) simp
  then show "a \<le> fst (randint a b r)" "fst (randint a b r) \<le> b"
    using assms by (simp_all add: randint_def)
qed

lemma generate_food_unfold:
  "generate_food sn r =
     (if drawn_cell r \<notin> set sn then Some (drawn_cell r, stl (stl r))
      else generate_food sn (stl (stl r)))"
  by (subst generate_food.simps) (simp add: drawn_cell_def randint_def Let_def)

lemma draw_0: "draw r 0 = drawn_cell r"
  by (simp add: draw_def)

lemma draw_Suc: "draw r (Suc n) = draw (stl (stl r)) n"
  by (simp add: draw_def)

lemma generate_food_Some_draw_aux:
  assumes "generate_food sn r = Some y"
  shows "\<exists>n. fst y = draw r n \<and> snd y = sdrop (2 * n + 2) r \<and> fst y \<notin> set sn
             \<and> (\<forall>m<n. draw r m \<in> set sn)"
  using assms
proof (rule generate_food.raw_induct [rotated], goal_cases)
  case (1 gf sn r y)
  note IH = 1(1) and body = 1(2)
  show ?case
  proof (cases "drawn_cell r \<in> set sn")
    case False
    with body have "y = (drawn_cell r, stl (stl r))"
      by (simp add: drawn_cell_def randint_def Let_def)
    with False have "fst y = draw r 0 \<and> snd y = sdrop (2 * 0 + 2) r \<and> fst y \<notin> set sn
        \<and> (\<forall>m<0. draw r m \<in> set sn)"
      by (simp add: draw_0)
    then show ?thesis by blast
  next
    case True
    with body have "gf sn (stl (stl r)) = Some y"
      by (simp add: drawn_cell_def randint_def Let_def)
    from IH [OF this] obtain n where n: "fst y = draw (stl (stl r)) n"
      "snd y = sdrop (2 * n + 2) (stl (stl r))" "fst y \<notin> set sn"
      "\<forall>m<n. draw (stl (stl r)) m \<in> set sn" by blast
    have "\<forall>m<Suc n. draw r m \<in> set sn"
    proof (intro allI impI)
      fix m assume "m < Suc n"
      then show "draw r m \<in> set sn"
        using True n(4) by (cases m) (simp_all add: draw_0 draw_Suc)
    qed
    with n have "fst y = draw r (Suc n) \<and> snd y = sdrop (2 * Suc n + 2) r \<and> fst y \<notin> set sn
        \<and> (\<forall>m<Suc n. draw r m \<in> set sn)"
      by (simp add: draw_Suc)
    then show ?thesis by blast
  qed
qed

lemma generate_food_Some_draw:
  assumes "generate_food sn r = Some (f, r')"
  shows "\<exists>n. f = draw r n \<and> r' = sdrop (2 * n + 2) r \<and> f \<notin> set sn
             \<and> (\<forall>m<n. draw r m \<in> set sn)"
  using generate_food_Some_draw_aux [OF assms] by simp

lemma generate_food_returns:
  assumes "draw r n \<notin> set sn"
  shows "\<exists>res. generate_food sn r = Some res"
  using assms
proof (induction n arbitrary: r)
  case 0
  then show ?case by (subst generate_food_unfold) (simp add: draw_0)
next
  case (Suc n)
  then have "\<exists>res. generate_food sn (stl (stl r)) = Some res" by (simp add: draw_Suc)
  then show ?case by (subst generate_food_unfold) simp
qed

lemma generate_food_None_iff:
  "generate_food sn r = None \<longleftrightarrow> (\<forall>n. draw r n \<in> set sn)"
proof
  assume "generate_food sn r = None"
  then show "\<forall>n. draw r n \<in> set sn" using generate_food_returns [of r _ sn] by fastforce
next
  assume all: "\<forall>n. draw r n \<in> set sn"
  show "generate_food sn r = None"
  proof (cases "generate_food sn r")
    case (Some res)
    then obtain f r' where "generate_food sn r = Some (f, r')" by (cases res) simp
    from generate_food_Some_draw [OF this] all show ?thesis by blast
  qed simp
qed

lemma drawn_cell_range:
  "drawn_cell r = (x, y) \<Longrightarrow>
     CELL_SIZE dvd x \<and> CELL_SIZE dvd y
   \<and> 1 \<le> x div CELL_SIZE \<and> x div CELL_SIZE \<le> WIDTH div CELL_SIZE - 2
   \<and> 1 \<le> y div CELL_SIZE \<and> y div CELL_SIZE \<le> HEIGHT div CELL_SIZE - 2"
  using randint_range [of 1 "WIDTH div CELL_SIZE - 2" r]
        randint_range [of 1 "HEIGHT div CELL_SIZE - 2" "stl r"]
  by (auto simp add: drawn_cell_def Let_def WIDTH_def HEIGHT_def CELL_SIZE_def randint_def split: prod.splits)

subsection \<open>The branches of move\<close>

lemma move_game_over: "game_over g \<Longrightarrow> move g r = Some (Inr (g, r))"
  by (simp add: move_def)

lemma move_empty: "\<not> game_over g \<Longrightarrow> snake g = [] \<Longrightarrow> move g r = Some (Inl IndexError)"
  by (simp add: move_def)

lemma move_boundary:
  assumes "\<not> game_over g" "snake g = h # t" "boundary_hit (new_head h (direction g))"
  shows "move g r = Some (Inr (g\<lparr>game_over := True\<rparr>, r))"
  using assms by (simp add: move_def Let_def)

lemma move_self:
  assumes "\<not> game_over g" "snake g = h # t" "\<not> boundary_hit (new_head h (direction g))"
    "new_head h (direction g) \<in> set (snake g)"
  shows "move g r = Some (Inr (g\<lparr>game_over := True\<rparr>, r))"
  using assms by (simp add: move_def Let_def)

lemma move_plain:
  assumes "\<not> game_over g" "snake g = h # t" "p = new_head h (direction g)"
    "\<not> boundary_hit p" "p \<notin> set (snake g)" "\<not> eats p (food g)"
  shows "move g r = Some (Inr (g\<lparr>snake := butlast (p # snake g)\<rparr>, r))"
  using assms by (simp add: move_def Let_def)

lemma move_eat:
  assumes "\<not> game_over g" "snake g = h # t" "p = new_head h (direction g)"
    "\<not> boundary_hit p" "p \<notin> set (snake g)" "eats p (food g)"
  shows "move g r =
     (case generate_food (p # snake g) r of
        None \<Rightarrow> None
      | Some (f, r') \<Rightarrow>
          Some (Inr (g\<lparr>snake := p # snake g, score := score g + 1,
                        current_speed := min (float_add (current_speed g) SPEED_INCREMENT) MAX_SPEED,
                        food := f\<rparr>, r')))"
  using assms by (simp add: move_def Let_def split: option.splits)

lemma move_returns_cases:
  assumes "move g r = Some (Inr (g', r'))"
  obtains
    (over) "game_over g" "g' = g" "r' = r"
  | (hit) h t where "\<not> game_over g" "snake g = h # t"
      "boundary_hit (new_head h (direction g)) \<or> new_head h (direction g) \<in> set (snake g)"
      "g' = g\<lparr>game_over := True\<rparr>" "r' = r"
  | (plain) h t p where "\<not> game_over g" "snake g = h # t" "p = new_head h (direction g)"
      "\<not> boundary_hit p" "p \<notin> set (snake g)" "\<not> eats p (food g)"
      "g' = g\<lparr>snake := butlast (p # snake g)\<rparr>" "r' = r"
  | (eat) h t p f where "\<not> game_over g" "snake g = h # t" "p = new_head h (direction g)"
      "\<not> boundary_hit p" "p \<notin> set (snake g)" "eats p (food g)"
      "generate_food (p # snake g) r = Some (f, r')"
      "g' = g\<lparr>snake := p # snake g, score := score g + 1,
              current_speed := min (float_add (current_speed g) SPEED_INCREMENT) MAX_SPEED,
              food := f\<rparr>"
proof (cases "game_over g")
  case True
  with assms have "g' = g" "r' = r" by (simp_all add: move_game_over)
  with True show ?thesis by (rule over)
next
  case alive: False
  show ?thesis
  proof (cases "snake g")
    case Nil
    with alive assms show ?thesis by (simp add: move_empty)
  next
    case (Cons h t)
    define p where "p = new_head h (direction g)"
    show ?thesis
    proof (cases "boundary_hit p \<or> p \<in> set (snake g)")
      case True
      then have "move g r = Some (Inr (g\<lparr>game_over := True\<rparr>, r))"
        using alive Cons move_boundary [of g h t r] move_self [of g h t r] by (auto simp: p_def)
      with assms have "g' = g\<lparr>game_over := True\<rparr>" "r' = r" by simp_all
      with True show ?thesis unfolding p_def by (rule hit [OF alive Cons])
    next
      case free: False
      show ?thesis
      proof (cases "eats p (food g)")
        case False
        with free alive Cons have "move g r = Some (Inr (g\<lparr>snake := butlast (p # snake g)\<rparr>, r))"
          by (intro move_plain) (simp_all add: p_def)
        with assms have "g' = g\<lparr>snake := butlast (p # snake g)\<rparr>" "r' = r" by simp_all
        with free False show ?thesis by (intro plain [OF alive Cons p_def]) simp_all
      next
        case True
        from free have f1: "\<not> boundary_hit p" and f2: "p \<notin> set (snake g)" by simp_all
        note m = move_eat [OF alive Cons p_def f1 f2 True, of r]
        from assms m obtain f where "generate_food (p # snake g) r = Some (f, r')"
          "g' = g\<lparr>snake := p # snake g, score := score g + 1,
              current_speed := min (float_add (current_speed g) SPEED_INCREMENT) MAX_SPEED,
              food := f\<rparr>"
          by (auto split: option.splits)
        then show ?thesis by (rule eat [OF alive Cons p_def f1 f2 True])
      qed
    qed
  qed
qed

subsection \<open>Grid alignment and the food test\<close>

lemma eats_same: "eats p p"
  by (simp add: eats_def colliderect_def Rect_def CELL_SIZE_def)

lemma eats_iff_eq:
  assumes "CELL_SIZE dvd fst p" "CELL_SIZE dvd snd p" "CELL_SIZE dvd fst f" "CELL_SIZE dvd snd f"
  shows "eats p f \<longleftrightarrow> p = f"
proof -
  from assms obtain a b c d where "fst p = 28 * a" "snd p = 28 * b" "fst f = 28 * c" "snd f = 28 * d"
    unfolding CELL_SIZE_def dvd_def by blast
  then show ?thesis
    by (cases p; cases f) (auto simp add: eats_def colliderect_def Rect_def CELL_SIZE_def)
qed

lemma new_head_dvd:
  assumes "CELL_SIZE dvd fst h" "CELL_SIZE dvd snd h"
  shows "CELL_SIZE dvd fst (new_head h d)" "CELL_SIZE dvd snd (new_head h d)"
  using assms by (simp_all add: new_head_def)

lemma new_head_aligned:
  assumes "aligned h" "\<not> boundary_hit (new_head h d)"
  shows "aligned (new_head h d)"
  using assms new_head_dvd [of h d] by (simp add: aligned_def boundary_hit_def not_less)

lemma drawn_cell_aligned: "aligned (drawn_cell r)"
  using drawn_cell_range [of r "fst (drawn_cell r)" "snd (drawn_cell r)"]
  by (auto simp add: aligned_def CELL_SIZE_def elim!: dvdE)

lemma generate_food_fresh:
  assumes "generate_food sn r = Some (f, r')"
  shows "f \<notin> set sn" "aligned f"
  using generate_food_Some_draw [OF assms] by (auto simp add: draw_def drawn_cell_aligned)

subsection \<open>The state invariant\<close>

lemma reset_game_result:
  assumes "reset_game r = Some (g, r')"
  shows "snake g = [(392, 280)]" "direction g = RIGHT" "score g = 0" "\<not> game_over g"
    "current_speed g = INITIAL_SPEED" "generate_food [(392, 280)] r = Some (food g, r')"
  using assms
  by (auto simp add: reset_game_def Let_def WIDTH_def HEIGHT_def CELL_SIZE_def
      split: option.splits)

lemma wf_reset_game:
  assumes "reset_game r = Some (g, r')"
  shows "wf_game g"
proof -
  note res = reset_game_result [OF assms]
  from generate_food_fresh [OF res(6)] res show ?thesis
    by (simp add: wf_game_def grid_aligned_def aligned_def CELL_SIZE_def
        INITIAL_SPEED_def MAX_SPEED_def)
qed

lemma steer_fields:
  "snake (steer g k) = snake g" "food (steer g k) = food g" "score (steer g k) = score g"
  "game_over (steer g k) = game_over g" "current_speed (steer g k) = current_speed g"
  by (simp_all add: steer_def)

lemma wf_steer: "wf_game g \<Longrightarrow> wf_game (steer g k)"
  by (simp add: wf_game_def grid_aligned_def steer_fields)

lemma keydown_cases:
  assumes "keydown g r k = Some (g', r')"
  obtains (restart) "k = K_SPACE" "game_over g" "reset_game r = Some (g', r')"
  | (steer) "\<not> (k = K_SPACE \<and> game_over g)" "g' = steer g k" "r' = r"
proof (cases "k = K_SPACE \<and> game_over g")
  case True
  with assms obtain g1 where g1: "reset_game r = Some (g1, r')" "g' = steer g1 K_SPACE"
    by (auto simp add: keydown_def split: option.splits)
  then have "g' = g1" by (simp add: steer_def)
  with g1 True show ?thesis by (intro restart) simp_all
next
  case False
  with assms have "g' = steer g k" "r' = r" by (auto simp add: keydown_def split: if_splits)
  with False show ?thesis by (rule steer)
qed

lemma wf_keydown:
  assumes "wf_game g" "keydown g r k = Some (g', r')"
  shows "wf_game g'"
  using assms(2)
proof (cases rule: keydown_cases)
  case restart
  then show ?thesis by (simp add: wf_reset_game)
next
  case steer
  with assms(1) show ?thesis by (simp add: wf_steer)
qed

lemma speed_step_range:
  assumes "INITIAL_SPEED \<le> x" "x \<le> MAX_SPEED"
  shows "x \<le> min (float_add x SPEED_INCREMENT) MAX_SPEED"
    "INITIAL_SPEED \<le> min (float_add x SPEED_INCREMENT) MAX_SPEED"
    "min (float_add x SPEED_INCREMENT) MAX_SPEED \<le> MAX_SPEED"
  using assms float_add_increment_ge [OF assms] by simp_all

lemma wf_move:
  assumes wf: "wf_game g" and mv: "move g r = Some (Inr (g', r'))"
  shows "wf_game g'"
  using mv
proof (cases rule: move_returns_cases)
  case over
  with wf show ?thesis by simp
next
  case (hit h t)
  with wf show ?thesis by (simp add: wf_game_def grid_aligned_def)
next
  case (plain h t p)
  from wf plain(2) have "aligned h" by (simp add: wf_game_def grid_aligned_def)
  with plain have p: "aligned p" by (simp add: new_head_aligned)
  from plain(6) have "p \<noteq> food g" using eats_same [of p] by (cases "p = food g") simp_all
  moreover have "set (butlast (snake g)) \<subseteq> set (snake g)" by (auto dest: in_set_butlastD)
  moreover have "list_all aligned (butlast (snake g))"
    using wf by (auto simp add: wf_game_def grid_aligned_def list_all_iff dest: in_set_butlastD)
  ultimately show ?thesis
    using wf p plain(2) by (auto simp add: plain(7) wf_game_def grid_aligned_def)
next
  case (eat h t p f)
  from wf eat(2) have "aligned h" by (simp add: wf_game_def grid_aligned_def)
  with eat have p: "aligned p" by (simp add: new_head_aligned)
  from generate_food_fresh [OF eat(7)] have f: "f \<notin> set (p # snake g)" "aligned f" .
  from wf have "INITIAL_SPEED \<le> current_speed g" "current_speed g \<le> MAX_SPEED"
    by (simp_all add: wf_game_def)
  note sp = speed_step_range [OF this]
  from wf p f sp(2,3) show ?thesis
    by (simp add: eat(8) wf_game_def grid_aligned_def)
qed

lemma reachable_wf: "reachable s \<Longrightarrow> wf_game (fst s)"
proof (induction rule: reachable.induct)
  case (init r s)
  then show ?case by (cases s) (simp add: wf_reset_game)
next
  case (key g r k s)
  then show ?case by (cases s) (auto intro: wf_keydown)
next
  case (step g r s)
  then show ?case by (cases s) (auto intro: wf_move)
qed

lemma handle_events_reachable:
  assumes "reachable (g, r)" "handle_events g r es = Some (Next s)"
  shows "reachable s"
  using assms
proof (induction g r es rule: handle_events.induct)
  case (3 g r k es)
  from "3.prems"(2) obtain g1 r1 where k: "k \<noteq> K_q" "keydown g r k = Some (g1, r1)"
    "handle_events g1 r1 es = Some (Next s)"
    by (auto split: if_splits option.splits)
  from "3.prems"(1) k(2) have "reachable (g1, r1)" by (rule reachable.key)
  with "3.IH" k show ?case by simp
qed simp_all

lemma reachable_frame:
  assumes "reachable (g, r)" "frame g r es = Some (Inr (Next s))"
  shows "reachable s"
proof -
  from assms(2) obtain g1 r1 where h: "handle_events g r es = Some (Next (g1, r1))"
    and m: "move g1 r1 = Some (Inr s)"
    by (auto simp add: frame_def split: option.splits loop.splits sum.splits)
  from assms(1) h have "reachable (g1, r1)" by (rule handle_events_reachable)
  then show ?thesis using m by (rule reachable.step)
qed

subsection \<open>Evaluating the example states\<close>

lemma drawn_cell_sconst0: "drawn_cell (sconst 0) = (28, 28)"
  by (simp add: drawn_cell_def randint_def WIDTH_def HEIGHT_def CELL_SIZE_def)

lemma generate_food_sconst0:
  "(28, 28) \<notin> set sn \<Longrightarrow> generate_food sn (sconst 0) = Some ((28, 28), sconst 0)"
  by (subst generate_food_unfold) (simp add: drawn_cell_sconst0)

lemma reset_start_game: "reset_game (sconst 0) = Some (start_game, sconst 0)"
  by (simp add: reset_game_def generate_food_sconst0 start_game_def
      WIDTH_def HEIGHT_def CELL_SIZE_def)

lemma reset_food_ahead: "reset_game (14 ## 9 ## sconst 0) = Some (food_ahead, sconst 0)"
proof -
  have "drawn_cell (14 ## 9 ## sconst 0) = (420, 280)"
    by (simp add: drawn_cell_def randint_def WIDTH_def HEIGHT_def CELL_SIZE_def)
  then have "generate_food [(392, 280)] (14 ## 9 ## sconst 0) = Some ((420, 280), sconst 0)"
    by (subst generate_food_unfold) simp
  then show ?thesis
    by (simp add: reset_game_def food_ahead_def WIDTH_def HEIGHT_def CELL_SIZE_def)
qed

lemma move_start_game:
  "move start_game (sconst 0) = Some (Inr (start_game\<lparr>snake := [(420, 280)]\<rparr>, sconst 0))"
  by (simp add: move_def start_game_def new_head_def boundary_hit_def eats_def colliderect_def
      Rect_def RIGHT_def WIDTH_def HEIGHT_def CELL_SIZE_def)

lemma move_food_ahead: "move food_ahead (sconst 0) = Some (Inr (fed_game, sconst 0))"
  by (simp add: move_def food_ahead_def fed_game_def new_head_def boundary_hit_def eats_def
      colliderect_def Rect_def RIGHT_def WIDTH_def HEIGHT_def CELL_SIZE_def
      generate_food_sconst0)

lemma move_edge_game:
  "move edge_game (sconst 0) = Some (Inr (edge_game\<lparr>snake := [(784, 280)]\<rparr>, sconst 0))"
  by (simp add: move_def edge_game_def new_head_def boundary_hit_def eats_def colliderect_def
      Rect_def RIGHT_def WIDTH_def HEIGHT_def CELL_SIZE_def)

lemma move_ring_game:
  "move ring_game (sconst 0) = Some (Inr (ring_game\<lparr>game_over := True\<rparr>, sconst 0))"
  by (simp add: move_def ring_game_def new_head_def boundary_hit_def UP_def
      WIDTH_def HEIGHT_def CELL_SIZE_def)

lemma reachable_fed_game: "reachable (fed_game, sconst 0)"
proof -
  have "reachable (food_ahead, sconst 0)" using reset_food_ahead by (rule reachable.init)
  then show ?thesis using move_food_ahead by (rule reachable.step)
qed

subsection \<open>What a step returns on an aligned board\<close>

lemma aligned_eats_iff:
  assumes "grid_aligned g" "snake g = h # t"
  shows "eats (new_head h (direction g)) (food g) \<longleftrightarrow> new_head h (direction g) = food g"
proof -
  from assms have "aligned h" "aligned (food g)" by (simp_all add: grid_aligned_def)
  then show ?thesis
    by (intro eats_iff_eq new_head_dvd) (simp_all add: aligned_def)
qed

lemma move_aligned:
  assumes "grid_aligned g" "snake g = h # t" "p = new_head h (direction g)"
    "move g r = Some (Inr (g', r'))"
  shows "if game_over g then g' = g \<and> r' = r
         else if boundary_hit p \<or> p \<in> set (snake g) then g' = g\<lparr>game_over := True\<rparr> \<and> r' = r
         else if p = food g then
           (\<exists>f. generate_food (p # snake g) r = Some (f, r')
              \<and> g' = g\<lparr>snake := p # snake g, score := score g + 1,
                        current_speed := min (float_add (current_speed g) SPEED_INCREMENT) MAX_SPEED,
                        food := f\<rparr>)
         else g' = g\<lparr>snake := butlast (p # snake g)\<rparr> \<and> r' = r"
  using assms(4)
proof (cases rule: move_returns_cases)
  case over
  then show ?thesis by simp
next
  case (hit h' t')
  with assms(2,3) show ?thesis by auto
next
  case (plain h' t' p')
  with assms(2,3) have "p' = p" by simp
  with plain aligned_eats_iff [OF assms(1,2)] assms(3) show ?thesis by auto
next
  case (eat h' t' p' f)
  with assms(2,3) have "p' = p" by simp
  with eat aligned_eats_iff [OF assms(1,2)] assms(3) show ?thesis by auto
qed

lemma move_returns_iff:
  assumes "grid_aligned g" "\<not> game_over g" "snake g = h # t" "p = new_head h (direction g)"
    "\<not> boundary_hit p" "p \<notin> set (snake g)"
  shows "(\<exists>s. move g r = Some (Inr s)) \<longleftrightarrow> p \<noteq> food g \<or> (\<exists>n. draw r n \<notin> set (p # snake g))"
proof (cases "p = food g")
  case True
  then have e: "eats p (food g)" using eats_same by simp
  have "(\<exists>x. generate_food (p # snake g) r = Some x) \<longleftrightarrow> (\<exists>n. draw r n \<notin> set (p # snake g))"
    using generate_food_None_iff [of "p # snake g" r] by auto
  with True show ?thesis
    by (auto simp add: move_eat [OF assms(2-4) assms(5,6) e] split: option.splits)
next
  case False
  with aligned_eats_iff [OF assms(1,3)] assms(4) have "\<not> eats p (food g)" by simp
  from move_plain [OF assms(2-4) assms(5,6) this, of r] False show ?thesis by simp
qed

lemma grid_aligned_move:
  assumes "grid_aligned g" "move g r = Some (Inr (g', r'))"
  shows "grid_aligned g'"
  using assms(2)
proof (cases rule: move_returns_cases)
  case over
  with assms(1) show ?thesis by simp
next
  case (hit h t)
  with assms(1) show ?thesis by (simp add: grid_aligned_def)
next
  case (plain h t p)
  from assms(1) plain(2) have "aligned h" by (simp add: grid_aligned_def)
  with plain have "aligned p" by (simp add: new_head_aligned)
  moreover have "list_all aligned (butlast (snake g))"
    using assms(1) by (auto simp add: grid_aligned_def list_all_iff dest: in_set_butlastD)
  ultimately show ?thesis
    using assms(1) plain(2) by (auto simp add: plain(7) grid_aligned_def)
next
  case (eat h t p f)
  from assms(1) eat(2) have "aligned h" by (simp add: grid_aligned_def)
  with eat have "aligned p" by (simp add: new_head_aligned)
  with generate_food_fresh(2) [OF eat(7)] assms(1) show ?thesis
    by (simp add: eat(8) grid_aligned_def)
qed

subsection \<open>Speed never drops\<close>

text \<open>The speed after the first food is the float that Python prints as \<^verbatim>\<open>10.4\<close>.\<close>

lemma speed_after_1: "speed_after 1 = 5854679515581645 / 562949953421312"
  by code_simp



subsection \<open>The float sum of a speed and the increment\<close>







subsection \<open>A board with no free cell\<close>

lemma set_full_board:
  "set full_board =
     (\<lambda>(x, y). (x * CELL_SIZE, y * CELL_SIZE)) `
       ({1..WIDTH div CELL_SIZE - 2} \<times> {1..HEIGHT div CELL_SIZE - 2})"
proof -
  have "set (if even x then rev [1..n] else [1..n]) = {1..n}" for x n :: int
    by simp
  then have "set full_board =
      (\<Union>x\<in>{1..WIDTH div CELL_SIZE - 2}.
         (\<lambda>y. (x * CELL_SIZE, y * CELL_SIZE)) ` {1..HEIGHT div CELL_SIZE - 2})"
    unfolding full_board_def set_concat set_map image_image by simp
  then show ?thesis by auto
qed

lemma drawn_cell_on_full_board: "drawn_cell r \<in> set full_board"
proof -
  obtain x y where xy: "drawn_cell r = (x, y)" by (cases "drawn_cell r")
  from drawn_cell_range [OF this] obtain a b where
    "x = a * CELL_SIZE" "y = b * CELL_SIZE"
    "1 \<le> a" "a \<le> WIDTH div CELL_SIZE - 2" "1 \<le> b" "b \<le> HEIGHT div CELL_SIZE - 2"
    by (auto simp add: CELL_SIZE_def elim!: dvdE)
  then show ?thesis unfolding xy set_full_board by auto
qed

lemma generate_food_full_board: "generate_food full_board r = None"
  by (simp add: generate_food_None_iff draw_def drawn_cell_on_full_board)

lemma full_board_snake:
  "length full_board = 494" "snake_path full_board" "distinct full_board"
proof -
  show len: "length full_board = 494" by code_simp
  show "snake_path full_board" by code_simp
  have "inj_on (\<lambda>(x, y). (x * CELL_SIZE, y * CELL_SIZE)) (UNIV :: (int \<times> int) set)"
    by (auto simp add: inj_on_def CELL_SIZE_def)
  then have "inj_on (\<lambda>(x, y). (x * CELL_SIZE, y * CELL_SIZE))
      ({1..WIDTH div CELL_SIZE - 2} \<times> {1..HEIGHT div CELL_SIZE - 2})"
    by (rule inj_on_subset) simp
  then have "card (set full_board) = card ({1..WIDTH div CELL_SIZE - 2} \<times> {1..HEIGHT div CELL_SIZE - 2})"
    unfolding set_full_board by (rule card_image)
  also have "\<dots> = 494" by (simp add: WIDTH_def HEIGHT_def CELL_SIZE_def)
  finally show "distinct full_board" using len by (simp add: card_distinct)
qed

section \<open>The claims\<close>

subsection \<open>Game over is a dead end until a restart\<close>

text \<open>
  Claim C9. When \<^verbatim>\<open>game_over\<close> is set, \<^verbatim>\<open>move\<close> returns the state as it is, snake,
  direction, food, score, speed, flag and generator alike; so does every key event other
  than space, the four arrow keys among them. The space key runs \<^verbatim>\<open>reset_game\<close>, and
  a game that \<^verbatim>\<open>reset_game\<close> returns is running again.
\<close>

theorem game_over_frozen:
  assumes "game_over g"
  shows "move g r = Some (Inr (g, r))
       \<and> (k \<noteq> K_SPACE \<longrightarrow> keydown g r k = Some (g, r))
       \<and> steer g k = g
       \<and> keydown g r K_SPACE = reset_game r
       \<and> (reset_game r = Some (g', r') \<longrightarrow> \<not> game_over g')"
proof -
  have "keydown g r K_SPACE = reset_game r"
    using assms by (auto simp add: keydown_def steer_def split: option.splits)
  moreover have "reset_game r = Some (g', r') \<longrightarrow> \<not> game_over g'"
    by (auto dest: reset_game_result(4))
  ultimately show ?thesis
    using assms by (simp add: move_game_over keydown_def steer_def)
qed

theorem game_over_frozen_witness:
  "game_over dead_game
   \<and> move dead_game (sconst 0) = Some (Inr (dead_game, sconst 0))
   \<and> K_RIGHT \<noteq> K_SPACE
   \<and> keydown dead_game (sconst 0) K_RIGHT = Some (dead_game, sconst 0)
   \<and> keydown dead_game (sconst 0) K_SPACE = Some (start_game, sconst 0)
   \<and> \<not> game_over start_game"
proof -
  have d: "game_over dead_game" by (simp add: dead_game_def)
  from game_over_frozen [OF d, of "sconst 0" K_RIGHT start_game "sconst 0"] d
  show ?thesis by (simp add: reset_start_game)
qed

subsection \<open>Self collision\<close>

text \<open>
  Claim C4. In a running game whose new head lies inside the grid of \<open>W \<times> H\<close> cells, the
  step ends the game exactly when the new head is a cell of the snake as it is before the
  step; it then changes nothing but the flag. The last cell of the snake counts, although
  the step would have vacated it.
\<close>

theorem self_collision:
  assumes "\<not> game_over g" "snake g = h # t" "p = new_head h (direction g)"
    "inside_grid (cell_of p)"
  shows "(ends_game (move g r) \<longleftrightarrow> p \<in> set (snake g))
       \<and> (p \<in> set (snake g) \<longrightarrow> move g r = Some (Inr (g\<lparr>game_over := True\<rparr>, r)))
       \<and> (p = last (snake g) \<longrightarrow> ends_game (move g r))"
proof -
  from assms(4) have nb: "\<not> boundary_hit p"
    by (auto simp add: inside_grid_def cell_of_def grid_W_def grid_H_def boundary_hit_def
        WIDTH_def HEIGHT_def CELL_SIZE_def)
  have hit: "move g r = Some (Inr (g\<lparr>game_over := True\<rparr>, r))" if "p \<in> set (snake g)"
    using assms(1,2) nb that unfolding assms(3) by (rule move_self)
  have miss: "\<not> ends_game (move g r)" if "p \<notin> set (snake g)"
  proof (cases "eats p (food g)")
    case False
    from move_plain [OF assms(1-3) nb that False, of r] assms(1) show ?thesis
      by (simp add: ends_game_def)
  next
    case True
    from move_eat [OF assms(1-3) nb that True, of r] assms(1) show ?thesis
      by (simp add: ends_game_def split: option.splits)
  qed
  have "last (snake g) \<in> set (snake g)" using assms(2) by simp
  with hit miss show ?thesis by (auto simp add: ends_game_def)
qed

theorem self_collision_witness:
  "\<not> game_over ring_game \<and> snake ring_game = (56, 84) # [(84, 84), (84, 56), (56, 56)]
   \<and> (56, 56) = new_head (56, 84) (direction ring_game)
   \<and> inside_grid (cell_of (56, 56))
   \<and> (56, 56) = last (snake ring_game)
   \<and> ends_game (move ring_game (sconst 0))
   \<and> move ring_game (sconst 0) = Some (Inr (ring_game\<lparr>game_over := True\<rparr>, sconst 0))"
proof -
  have a: "\<not> game_over ring_game" "snake ring_game = (56, 84) # [(84, 84), (84, 56), (56, 56)]"
    "(56, 56) = new_head (56, 84) (direction ring_game)"
    by (simp_all add: ring_game_def new_head_def UP_def CELL_SIZE_def)
  have b: "inside_grid (cell_of (56, 56))"
    by (simp add: inside_grid_def cell_of_def grid_W_def grid_H_def WIDTH_def HEIGHT_def
        CELL_SIZE_def)
  have l: "(56, 56) = last (snake ring_game)" "(56, 56) \<in> set (snake ring_game)"
    by (simp_all add: ring_game_def)
  from self_collision [OF a b, of "sconst 0"] l
  have c: "ends_game (move ring_game (sconst 0))"
    "move ring_game (sconst 0) = Some (Inr (ring_game\<lparr>game_over := True\<rparr>, sconst 0))"
    by blast+
  from a b l(1) c show ?thesis by blast
qed

subsection \<open>The boundary\<close>

text \<open>
  Claim C1, as corrected. \<^verbatim>\<open>move\<close> compares the pixel position of the new head with the
  screen, not its cell with the grid of \<open>W \<times> H\<close> cells. In a running game: a new head
  with a negative coordinate, or with \<open>x \<ge> WIDTH\<close> or \<open>y \<ge> HEIGHT\<close>, ends the game and
  changes nothing else; a new head whose cell is inside the grid and not on the snake does
  not end the game. (A new head whose cell is inside the grid and on the snake ends it too:
  that is the self collision.) Nothing is said of cell column \<open>W\<close> and cell row \<open>H\<close>.
\<close>

theorem boundary_collision:
  assumes "\<not> game_over g" "snake g = h # t" "p = new_head h (direction g)"
  shows "(fst p < 0 \<or> WIDTH \<le> fst p \<or> snd p < 0 \<or> HEIGHT \<le> snd p
            \<longrightarrow> move g r = Some (Inr (g\<lparr>game_over := True\<rparr>, r)))
       \<and> (inside_grid (cell_of p) \<and> p \<notin> set (snake g) \<longrightarrow> \<not> ends_game (move g r))"
proof (intro conjI impI)
  assume "fst p < 0 \<or> WIDTH \<le> fst p \<or> snd p < 0 \<or> HEIGHT \<le> snd p"
  then have "boundary_hit (new_head h (direction g))"
    by (simp add: boundary_hit_def assms(3))
  with assms(1,2) show "move g r = Some (Inr (g\<lparr>game_over := True\<rparr>, r))"
    by (rule move_boundary)
next
  assume a: "inside_grid (cell_of p) \<and> p \<notin> set (snake g)"
  then have nb: "\<not> boundary_hit p"
    by (auto simp add: inside_grid_def cell_of_def grid_W_def grid_H_def boundary_hit_def
        WIDTH_def HEIGHT_def CELL_SIZE_def)
  from a have free: "p \<notin> set (snake g)" by simp
  show "\<not> ends_game (move g r)"
  proof (cases "eats p (food g)")
    case False
    from move_plain [OF assms nb free False, of r] assms(1) show ?thesis
      by (simp add: ends_game_def)
  next
    case True
    from move_eat [OF assms nb free True, of r] assms(1) show ?thesis
      by (simp add: ends_game_def split: option.splits)
  qed
qed

theorem boundary_collision_witness:
  "\<not> game_over (dead_game\<lparr>game_over := False\<rparr>)
   \<and> snake (dead_game\<lparr>game_over := False\<rparr>) = [(0, 280)]
   \<and> fst (new_head (0, 280) (direction (dead_game\<lparr>game_over := False\<rparr>))) < 0
   \<and> move (dead_game\<lparr>game_over := False\<rparr>) (sconst 0) = Some (Inr (dead_game, sconst 0))
   \<and> \<not> game_over start_game \<and> snake start_game = [(392, 280)]
   \<and> inside_grid (cell_of (new_head (392, 280) (direction start_game)))
   \<and> new_head (392, 280) (direction start_game) \<notin> set (snake start_game)
   \<and> \<not> ends_game (move start_game (sconst 0))"
proof -
  let ?w = "dead_game\<lparr>game_over := False\<rparr>"
  have w: "\<not> game_over ?w" "snake ?w = [(0, 280)]"
    "fst (new_head (0, 280) (direction ?w)) < 0" "?w\<lparr>game_over := True\<rparr> = dead_game"
    by (simp_all add: dead_game_def new_head_def LEFT_def CELL_SIZE_def)
  have s: "\<not> game_over start_game" "snake start_game = [(392, 280)]"
    "inside_grid (cell_of (new_head (392, 280) (direction start_game)))"
    "new_head (392, 280) (direction start_game) \<notin> set (snake start_game)"
    by (simp_all add: start_game_def new_head_def RIGHT_def inside_grid_def cell_of_def
        grid_W_def grid_H_def WIDTH_def HEIGHT_def CELL_SIZE_def)
  from boundary_collision [OF w(1,2) refl, of "sconst 0"] w(3,4)
  have 1: "move ?w (sconst 0) = Some (Inr (dead_game, sconst 0))" by simp
  from boundary_collision [OF s(1,2) refl, of "sconst 0"] s(3,4)
  have 2: "\<not> ends_game (move start_game (sconst 0))" by blast
  from w(1-3) s 1 2 show ?thesis by blast
qed

theorem boundary_counterexample:
  "\<not> game_over edge_game \<and> snake edge_game = [(756, 280)]
   \<and> cell_of (new_head (756, 280) (direction edge_game)) = (28, 10)
   \<and> \<not> inside_grid (28, 10)
   \<and> move edge_game (sconst 0) = Some (Inr (edge_game\<lparr>snake := [(784, 280)]\<rparr>, sconst 0))
   \<and> \<not> game_over (edge_game\<lparr>snake := [(784, 280)]\<rparr>)
   \<and> \<not> game_over ring_game
   \<and> inside_grid (cell_of (new_head (56, 84) (direction ring_game)))
   \<and> move ring_game (sconst 0) = Some (Inr (ring_game\<lparr>game_over := True\<rparr>, sconst 0))"
  by (simp add: move_edge_game move_ring_game)
    (simp add: edge_game_def ring_game_def new_head_def RIGHT_def UP_def inside_grid_def
      cell_of_def grid_W_def grid_H_def WIDTH_def HEIGHT_def CELL_SIZE_def)

text \<open>
  For positions on the grid the test of \<^verbatim>\<open>move\<close> is a test of the cell against
  \<open>29 \<times> 22\<close> cells: the column \<open>28\<close> and the row \<open>21\<close>, which the screen cuts, pass it.
\<close>

lemma boundary_hit_cells:
  assumes "CELL_SIZE dvd fst p" "CELL_SIZE dvd snd p"
  shows "boundary_hit p \<longleftrightarrow>
    \<not> (0 \<le> fst (cell_of p) \<and> fst (cell_of p) < 29 \<and> 0 \<le> snd (cell_of p) \<and> snd (cell_of p) < 22)"
  using assms
  by (auto simp add: boundary_hit_def cell_of_def WIDTH_def HEIGHT_def CELL_SIZE_def
      elim!: dvdE)

subsection \<open>Length of the snake\<close>

text \<open>
  Claim C5. In a running game on an aligned board, a step with no boundary and no self
  collision leaves a snake one cell longer when the new head is the food cell, and as long
  as before otherwise. The step returns in the second case; in the first it returns
  exactly when \<^verbatim>\<open>generate_food\<close> draws a free cell.
\<close>

theorem length_after_step:
  assumes "grid_aligned g" "\<not> game_over g" "snake g = h # t" "p = new_head h (direction g)"
    "\<not> boundary_hit p" "p \<notin> set (snake g)"
  shows "(\<forall>g' r'. move g r = Some (Inr (g', r')) \<longrightarrow>
            length (snake g') = length (snake g) + (if p = food g then 1 else 0))
       \<and> ((\<exists>s. move g r = Some (Inr s)) \<longleftrightarrow>
            p \<noteq> food g \<or> (\<exists>n. draw r n \<notin> set (p # snake g)))"
proof (intro conjI allI impI)
  fix g' r' assume "move g r = Some (Inr (g', r'))"
  from move_aligned [OF assms(1,3,4) this] assms(2,5,6)
  show "length (snake g') = length (snake g) + (if p = food g then 1 else 0)"
    by (auto simp add: assms(3))
next
  show "(\<exists>s. move g r = Some (Inr s)) \<longleftrightarrow> p \<noteq> food g \<or> (\<exists>n. draw r n \<notin> set (p # snake g))"
    using assms by (rule move_returns_iff)
qed

theorem length_after_step_witness:
  "grid_aligned food_ahead \<and> \<not> game_over food_ahead \<and> snake food_ahead = [(392, 280)]
   \<and> food food_ahead = new_head (392, 280) (direction food_ahead)
   \<and> \<not> boundary_hit (food food_ahead) \<and> food food_ahead \<notin> set (snake food_ahead)
   \<and> move food_ahead (sconst 0) = Some (Inr (fed_game, sconst 0))
   \<and> length (snake fed_game) = length (snake food_ahead) + 1"
proof -
  have a: "grid_aligned food_ahead" "\<not> game_over food_ahead" "snake food_ahead = [(392, 280)]"
    "food food_ahead = new_head (392, 280) (direction food_ahead)"
    "\<not> boundary_hit (food food_ahead)" "food food_ahead \<notin> set (snake food_ahead)"
    by (simp_all add: food_ahead_def grid_aligned_def aligned_def new_head_def boundary_hit_def
        RIGHT_def WIDTH_def HEIGHT_def CELL_SIZE_def)
  from length_after_step [OF a, of "sconst 0"] move_food_ahead
  have "length (snake fed_game) = length (snake food_ahead) + 1" by simp
  with a move_food_ahead show ?thesis by blast
qed

subsection \<open>Score\<close>

text \<open>
  Claim C8. On an aligned board a step that returns has raised the score by exactly 1 when
  the game was running, the new head hit neither the boundary nor the snake and was the
  food cell; otherwise it has left the score as it was. The score of a reachable state is
  not negative, and \<^verbatim>\<open>reset_game\<close> sets it to 0.
\<close>

theorem score_after_step:
  "(grid_aligned g \<and> snake g = h # t \<and> p = new_head h (direction g)
      \<and> move g r = Some (Inr (g', r')) \<longrightarrow>
      score g' = score g +
        (if \<not> game_over g \<and> \<not> boundary_hit p \<and> p \<notin> set (snake g) \<and> p = food g
         then 1 else 0))
   \<and> (reachable (g, r) \<longrightarrow> 0 \<le> score g)
   \<and> (reset_game r = Some (g0, r0) \<longrightarrow> score g0 = 0)"
proof (intro conjI impI)
  assume a: "grid_aligned g \<and> snake g = h # t \<and> p = new_head h (direction g)
      \<and> move g r = Some (Inr (g', r'))"
  then have "grid_aligned g" "snake g = h # t" "p = new_head h (direction g)"
    "move g r = Some (Inr (g', r'))" by simp_all
  from move_aligned [OF this]
  show "score g' = score g +
        (if \<not> game_over g \<and> \<not> boundary_hit p \<and> p \<notin> set (snake g) \<and> p = food g
         then 1 else 0)"
    by (auto split: if_splits)
next
  assume "reachable (g, r)"
  from reachable_wf [OF this] show "0 \<le> score g" by (simp add: wf_game_def)
next
  assume "reset_game r = Some (g0, r0)"
  then show "score g0 = 0" by (rule reset_game_result)
qed

theorem score_after_step_witness:
  "grid_aligned food_ahead \<and> snake food_ahead = [(392, 280)]
   \<and> food food_ahead = new_head (392, 280) (direction food_ahead)
   \<and> move food_ahead (sconst 0) = Some (Inr (fed_game, sconst 0))
   \<and> score fed_game = score food_ahead + 1
   \<and> reachable (food_ahead, sconst 0) \<and> 0 \<le> score food_ahead
   \<and> reset_game (sconst 0) = Some (start_game, sconst 0) \<and> score start_game = 0"
proof -
  have a: "grid_aligned food_ahead" "snake food_ahead = [(392, 280)]"
    "food food_ahead = new_head (392, 280) (direction food_ahead)"
    "\<not> game_over food_ahead"
    "\<not> boundary_hit (food food_ahead)" "food food_ahead \<notin> set (snake food_ahead)"
    by (simp_all add: food_ahead_def grid_aligned_def aligned_def new_head_def boundary_hit_def
        RIGHT_def WIDTH_def HEIGHT_def CELL_SIZE_def)
  have r: "reachable (food_ahead, sconst 0)" using reset_food_ahead by (rule reachable.init)
  note t = score_after_step [of food_ahead "(392, 280)" "[]" "food food_ahead" "sconst 0"
      fed_game "sconst 0" start_game "sconst 0"]
  from t a move_food_ahead have 1: "score fed_game = score food_ahead + 1" by simp
  from t r have 2: "0 \<le> score food_ahead" by blast
  from t reset_start_game have 3: "score start_game = 0" by blast
  from a(1-3) move_food_ahead 1 r 2 reset_start_game 3 show ?thesis by blast
qed

subsection \<open>Food and snake\<close>

text \<open>
  Claim C6. In every reachable state the food is on no cell of the snake. The states right
  after \<^verbatim>\<open>reset_game\<close> and right after a step that ate are reachable states.
\<close>

theorem food_off_snake:
  assumes "reachable (g, r)"
  shows "food g \<notin> set (snake g)"
  using reachable_wf [OF assms] by (simp add: wf_game_def)

theorem food_off_snake_witness:
  "reachable (fed_game, sconst 0) \<and> food fed_game \<notin> set (snake fed_game)"
  using food_off_snake [OF reachable_fed_game] reachable_fed_game by blast

subsection \<open>Grid alignment\<close>

text \<open>
  Claim C10. In every reachable state each cell of the snake and the food have both
  coordinates non-negative multiples of \<^verbatim>\<open>CELL_SIZE\<close>. \<^verbatim>\<open>reset_game\<close> returns such a
  state, \<^verbatim>\<open>generate_food\<close> returns such a cell, a step keeps the property. On such a
  board the rectangle test of the step is the equality of new head and food.
\<close>

theorem positions_on_grid:
  "(reachable (g, r) \<longrightarrow> grid_aligned g)
   \<and> (reset_game r = Some (g0, r0) \<longrightarrow> grid_aligned g0)
   \<and> (generate_food sn r = Some (f, r1) \<longrightarrow> aligned f)
   \<and> (grid_aligned g \<and> move g r = Some (Inr (g', r')) \<longrightarrow> grid_aligned g')
   \<and> (grid_aligned g \<and> snake g = h # t \<longrightarrow>
        (eats (new_head h (direction g)) (food g) \<longleftrightarrow> new_head h (direction g) = food g))"
proof (intro conjI impI)
  assume "reachable (g, r)"
  from reachable_wf [OF this] show "grid_aligned g" by (simp add: wf_game_def)
next
  assume "reset_game r = Some (g0, r0)"
  from wf_reset_game [OF this] show "grid_aligned g0" by (simp add: wf_game_def)
next
  assume "generate_food sn r = Some (f, r1)"
  then show "aligned f" by (rule generate_food_fresh)
next
  assume "grid_aligned g \<and> move g r = Some (Inr (g', r'))"
  then show "grid_aligned g'" by (auto intro: grid_aligned_move)
next
  assume "grid_aligned g \<and> snake g = h # t"
  then show "eats (new_head h (direction g)) (food g) \<longleftrightarrow> new_head h (direction g) = food g"
    by (auto simp add: aligned_eats_iff)
qed

theorem positions_on_grid_witness:
  "reachable (food_ahead, sconst 0) \<and> grid_aligned food_ahead
   \<and> reset_game (sconst 0) = Some (start_game, sconst 0) \<and> grid_aligned start_game
   \<and> generate_food [(420, 280), (392, 280)] (sconst 0) = Some ((28, 28), sconst 0)
   \<and> aligned (28, 28)
   \<and> move food_ahead (sconst 0) = Some (Inr (fed_game, sconst 0)) \<and> grid_aligned fed_game
   \<and> snake food_ahead = [(392, 280)]
   \<and> eats (new_head (392, 280) (direction food_ahead)) (food food_ahead)
   \<and> new_head (392, 280) (direction food_ahead) = food food_ahead"
proof -
  have r: "reachable (food_ahead, sconst 0)" using reset_food_ahead by (rule reachable.init)
  have gf: "generate_food [(420, 280), (392, 280)] (sconst 0) = Some ((28, 28), sconst 0)"
    by (simp add: generate_food_sconst0)
  have s: "snake food_ahead = [(392, 280)]"
    "new_head (392, 280) (direction food_ahead) = food food_ahead"
    by (simp_all add: food_ahead_def new_head_def RIGHT_def CELL_SIZE_def)
  note t = positions_on_grid [where g = food_ahead and r = "sconst 0" and ?g0.0 = start_game
      and ?r0.0 = "sconst 0" and sn = "[(420, 280), (392, 280)]" and f = "(28, 28)"
      and ?r1.0 = "sconst 0" and g' = fed_game and r' = "sconst 0" and h = "(392, 280)"
      and t = "[]"]
  from t r have 1: "grid_aligned food_ahead" by blast
  from t reset_start_game have 2: "grid_aligned start_game" by blast
  from t gf have 3: "aligned (28, 28)" by blast
  from t 1 move_food_ahead have 4: "grid_aligned fed_game" by blast
  from t 1 s have 5: "eats (new_head (392, 280) (direction food_ahead)) (food food_ahead)"
    by blast
  from r 1 reset_start_game 2 gf 3 move_food_ahead 4 s 5 show ?thesis by blast
qed

subsection \<open>Speed\<close>



subsection \<open>Food placement\<close>

text \<open>
  Claim C3, as corrected. \<^verbatim>\<open>generate_food\<close> has no retry budget and reports no fault.
  It fails to return exactly when every candidate it draws is on the snake; when it
  returns, it returns the first candidate drawn that is not on the snake, having consumed
  the draws up to that one. With a snake over the whole sampling region it returns for no
  generator (lemma \<open>generate_food_full_board\<close>).
\<close>

theorem generate_food_result:
  "(generate_food sn r = None \<longleftrightarrow> (\<forall>n. draw r n \<in> set sn))
   \<and> (generate_food sn r = Some (f, r') \<longrightarrow>
        f \<notin> set sn
        \<and> (\<exists>n. f = draw r n \<and> r' = sdrop (2 * n + 2) r \<and> (\<forall>m<n. draw r m \<in> set sn)))"
proof (intro conjI impI)
  show "generate_food sn r = None \<longleftrightarrow> (\<forall>n. draw r n \<in> set sn)"
    by (rule generate_food_None_iff)
next
  assume "generate_food sn r = Some (f, r')"
  from generate_food_Some_draw [OF this]
  show "f \<notin> set sn"
    "\<exists>n. f = draw r n \<and> r' = sdrop (2 * n + 2) r \<and> (\<forall>m<n. draw r m \<in> set sn)"
    by blast+
qed

theorem generate_food_result_witness:
  "generate_food [(28, 28)] (0 ## 0 ## 2 ## 0 ## sconst 0) = Some ((84, 28), sconst 0)
   \<and> (84, 28) \<notin> set [(28::int, 28::int)]
   \<and> (84, 28) = draw (0 ## 0 ## 2 ## 0 ## sconst 0) (Suc 0)
   \<and> draw (0 ## 0 ## 2 ## 0 ## sconst 0) 0 \<in> set [(28, 28)]"
proof -
  let ?r = "0 ## 0 ## 2 ## 0 ## sconst 0"
  have d: "drawn_cell ?r = (28, 28)" "drawn_cell (2 ## 0 ## sconst 0) = (84, 28)"
    by (simp_all add: drawn_cell_def randint_def WIDTH_def HEIGHT_def CELL_SIZE_def)
  have "generate_food [(28, 28)] (2 ## 0 ## sconst 0) = Some ((84, 28), sconst 0)"
    by (subst generate_food_unfold) (simp add: d)
  then have g: "generate_food [(28, 28)] ?r = Some ((84, 28), sconst 0)"
    by (subst generate_food_unfold) (simp add: d)
  have dr: "draw ?r 0 = (28, 28)" "draw ?r (Suc 0) = (84, 28)"
    using d by (simp_all add: draw_0 draw_Suc)
  from generate_food_result [of "[(28, 28)]" ?r "(84, 28)" "sconst 0"] g
  have "(84, 28) \<notin> set [(28::int, 28::int)]" by blast
  with g dr show ?thesis by simp
qed

theorem generate_food_counterexample:
  "length full_board = 494 \<and> snake_path full_board \<and> distinct full_board
   \<and> generate_food full_board (sconst 0) = None"
  using full_board_snake generate_food_full_board [of "sconst 0"] by blast

subsection \<open>Two key events in one frame\<close>

text \<open>
  Claim C2 fails on the code. Each arrow key is checked against \<^verbatim>\<open>self.direction\<close> as the
  key before it left it, not against the direction of the last step. In the reachable state
  \<open>fed_game\<close>, a snake of two cells heading right, the events up and left in one frame turn
  the snake left: the step runs the head into the second cell and ends the game. With the
  event up alone the snake moves up.
\<close>

theorem reverse_in_one_frame:
  "reachable (fed_game, sconst 0) \<and> direction fed_game = RIGHT
   \<and> snake fed_game = [(420, 280), (392, 280)]
   \<and> frame fed_game (sconst 0) [KEYDOWN K_UP, KEYDOWN K_LEFT] =
       Some (Inr (Next (fed_game\<lparr>direction := LEFT, game_over := True\<rparr>, sconst 0)))
   \<and> frame fed_game (sconst 0) [KEYDOWN K_UP] =
       Some (Inr (Next (fed_game\<lparr>snake := [(420, 252), (420, 280)], direction := UP\<rparr>,
                        sconst 0)))"
proof -
  have 1: "frame fed_game (sconst 0) [KEYDOWN K_UP, KEYDOWN K_LEFT] =
       Some (Inr (Next (fed_game\<lparr>direction := LEFT, game_over := True\<rparr>, sconst 0)))"
    by (simp add: frame_def keydown_def steer_def move_def fed_game_def new_head_def
        boundary_hit_def UP_def DOWN_def LEFT_def RIGHT_def WIDTH_def HEIGHT_def CELL_SIZE_def)
  have 2: "frame fed_game (sconst 0) [KEYDOWN K_UP] =
       Some (Inr (Next (fed_game\<lparr>snake := [(420, 252), (420, 280)], direction := UP\<rparr>,
                        sconst 0)))"
    by (simp add: frame_def keydown_def steer_def move_def fed_game_def new_head_def
        boundary_hit_def eats_def colliderect_def Rect_def
        UP_def DOWN_def LEFT_def RIGHT_def WIDTH_def HEIGHT_def CELL_SIZE_def)
  from reachable_fed_game 1 2 show ?thesis by (simp add: fed_game_def)
qed

text \<open>A single reverse key, the case the check of \<^verbatim>\<open>run\<close> is written for, is ignored.\<close>

lemma steer_reverse_ignored:
  "direction g = RIGHT \<Longrightarrow> steer g K_LEFT = g"
  "direction g = LEFT \<Longrightarrow> steer g K_RIGHT = g"
  "direction g = UP \<Longrightarrow> steer g K_DOWN = g"
  "direction g = DOWN \<Longrightarrow> steer g K_UP = g"
  by (simp_all add: steer_def)

end
